theory Spec2Isabelle
  imports Main "HOL-Library.Sublist"
begin

section \<open>Strings as the script uses them\<close>

text \<open>
  Python strings are modelled as \<open>string\<close> (lists of \<open>char\<close>), one \<open>char\<close> per
  code point below 256. The slices \<open>s[:n]\<close> and \<open>s[n:]\<close> with \<open>n \<ge> 0\<close> never raise
  in Python; they are \<open>take n s\<close> and \<open>drop n s\<close>, which clamp in the same way.
\<close>

type_synonym errno = int

abbreviation NL :: char where
  "NL \<equiv> CHR 0x0A"

text \<open>\<open>str.find(c)\<close>: the index of the first occurrence, or \<open>-1\<close>.\<close>

fun str_find :: "char \<Rightarrow> string \<Rightarrow> int" where
  "str_find c [] = -1"
| "str_find c (x # xs) =
     (if x = c then 0
      else (let r = str_find c xs in if r < 0 then -1 else r + 1))"

text \<open>
  \<open>str.isspace\<close> on the code points below 256: tab, line feed, vertical tab, form feed,
  carriage return, the separators 0x1C to 0x1F, space, NEL (0x85) and the no-break
  space (0xA0).
\<close>

definition is_space :: "char \<Rightarrow> bool" where
  "is_space c =
     (let n = of_char c :: nat
      in (9 \<le> n \<and> n \<le> 13) \<or> (28 \<le> n \<and> n \<le> 32) \<or> n = 133 \<or> n = 160)"

text \<open>\<open>str.strip()\<close>: drop the white space at both ends.\<close>

definition strip :: "string \<Rightarrow> string" where
  "strip s = rev (dropWhile is_space (rev (dropWhile is_space s)))"

text \<open>
  \<open>h.readlines()\<close> on a text stream: the content is cut after every line feed, and
  each line keeps its line feed; a last line without one is kept as it is.
\<close>

fun readlines_from :: "string \<Rightarrow> string \<Rightarrow> string list" where
  "readlines_from cur [] = (if cur = [] then [] else [cur])"
| "readlines_from cur (c # cs) =
     (if c = NL then (cur @ [c]) # readlines_from [] cs
      else readlines_from (cur @ [c]) cs)"

definition readlines :: "string \<Rightarrow> string list" where
  "readlines content = readlines_from [] content"

section \<open>The data model\<close>

text \<open>Class \<open>Todo\<close>: the fields \<open>done\<close>, \<open>who\<close>, \<open>what\<close> and \<open>file\<close>.\<close>

record Todo =
  t_done :: bool
  t_who :: string
  t_what :: string
  t_file :: string

text \<open>
  The file system the script sees through \<open>os\<close> and \<open>open\<close>, fixed for the length
  of a run. A call that raises \<open>IOError\<close> returns \<open>Inl\<close> of its \<open>errno\<close>.
  \<open>read_text p\<close> is the text that \<open>open(p, "r")\<close> delivers; \<open>open_write p\<close> is the
  error, if any, of \<open>open(p, "w")\<close>; \<open>write_err k\<close> is the error, if any, of the
  \<open>k\<close>-th call of \<open>h.write\<close>. What the script does not catch is left out: a file
  that does not decode, a failure of \<open>h.close\<close>.
\<close>

record filesys =
  abspath :: "string \<Rightarrow> errno + string"
  isfile :: "string \<Rightarrow> bool"
  isdir :: "string \<Rightarrow> bool"
  listdir :: "string \<Rightarrow> errno + string list"
  read_text :: "string \<Rightarrow> errno + string"
  open_write :: "string \<Rightarrow> errno option"
  write_err :: "nat \<Rightarrow> errno option"

section \<open>The TODO extractor\<close>

text \<open>
  The body of the loop over the lines in \<open>analyze_todos_in_file\<close>: it takes the list
  \<open>todos\<close> collected so far and returns it, extended by at most one record.
  A \<open>continue\<close> is the branch that returns \<open>todos\<close> as it is.
\<close>

definition analyze_line :: "string \<Rightarrow> string \<Rightarrow> Todo list \<Rightarrow> string \<Rightarrow> Todo list" where
  "analyze_line path who todos line0 =
     (if length line0 \<ge> 3 \<and> take 3 line0 = ''- ['' then
        (let line1 = drop 3 line0;
             (done, line2) =
               (if length line1 \<ge> 4 \<and> take 4 line1 = ''x] ['' then (True, drop 4 line1)
                else if length line1 \<ge> 4 \<and> take 4 line1 = '' ] ['' then (False, drop 4 line1)
                else (False, line1));
             pos = str_find CHR '']'' line2
         in if pos \<ge> 0 then
              (let name = take (nat pos) line2;
                   line3 = drop (nat pos + 1) line2
               in if name = who
                  then todos @ [\<lparr>t_done = done, t_who = name, t_what = strip line3, t_file = path\<rparr>]
                  else todos)
            else todos)
      else todos)"

text \<open>\<open>analyze_todos_in_file\<close>: open, read the lines, run the loop, return \<open>todos\<close>.\<close>

definition analyze_todos_in_file :: "filesys \<Rightarrow> string \<Rightarrow> string \<Rightarrow> errno + Todo list" where
  "analyze_todos_in_file fs path who =
     (case read_text fs path of
        Inl e \<Rightarrow> Inl e
      | Inr content \<Rightarrow> Inr (foldl (analyze_line path who) [] (readlines content)))"

section \<open>The file discoverer\<close>

text \<open>\<open>os.path.join(a, b)\<close> on POSIX.\<close>

definition path_join :: "string \<Rightarrow> string \<Rightarrow> string" where
  "path_join a b =
     (if take 1 b = ''/'' then b
      else if a = [] \<or> last a = CHR ''/'' then a @ b
      else a @ ''/'' @ b)"

text \<open>
  The first loop of \<open>get_markdown_files\<close>: every entry of \<open>exclude\<close> is made
  absolute and appended to \<open>aexclude\<close>; a failure ends the generator.
\<close>

fun canonicalize :: "filesys \<Rightarrow> string list \<Rightarrow> string list \<Rightarrow> errno + string list" where
  "canonicalize fs aexclude [] = Inr aexclude"
| "canonicalize fs aexclude (e # es) =
     (case abspath fs e of
        Inl err \<Rightarrow> Inl err
      | Inr a \<Rightarrow> canonicalize fs (aexclude @ [a]) es)"

text \<open>
  How a run of the generator stands after a number of iterations of its \<open>while\<close>
  loop: the work list ran empty (\<open>Finished\<close>), an error branch printed its message
  and returned (\<open>Aborted\<close>), or the loop has iterations left to do (\<open>Unfinished\<close>).
\<close>

datatype outcome = Finished | Aborted | Unfinished

text \<open>
  The \<open>while\<close> loop of \<open>get_markdown_files\<close>. The work list \<open>todo\<close> is a stack with
  its top at the end, as in the source (\<open>todo.pop()\<close>, \<open>todo += ...\<close>). Nothing
  bounds the loop (a directory may list itself through a link), so the model counts
  iterations: \<open>walk fs aexclude n todo\<close> runs at most \<open>n\<close> of them and returns the
  paths yielded in that time, in order, with the outcome. The yielded paths of a run
  that never ends are those of its finite prefixes.
\<close>

fun walk :: "filesys \<Rightarrow> string list \<Rightarrow> nat \<Rightarrow> string list \<Rightarrow> string list \<times> outcome" where
  "walk fs aexclude 0 todo = ([], if todo = [] then Finished else Unfinished)"
| "walk fs aexclude (Suc n) todo =
     (if todo = [] then ([], Finished)
      else
        (let p = last todo; todo' = butlast todo
         in case abspath fs p of
              Inl e \<Rightarrow> ([], Aborted)
            | Inr a \<Rightarrow>
                if a \<in> set aexclude then walk fs aexclude n todo'
                else if isfile fs p then
                  (if length p \<ge> 3 \<and> drop (length p - 3) p = ''.md''
                   then (case walk fs aexclude n todo' of (files, oc) \<Rightarrow> (p # files, oc))
                   else walk fs aexclude n todo')
                else if isdir fs p then
                  (case listdir fs p of
                     Inl e \<Rightarrow> ([], Aborted)
                   | Inr entries \<Rightarrow> walk fs aexclude n (todo' @ map (path_join p) entries))
                else ([], Aborted)))"

definition get_markdown_files ::
  "filesys \<Rightarrow> string \<Rightarrow> string list \<Rightarrow> nat \<Rightarrow> string list \<times> outcome" where
  "get_markdown_files fs path exclude fuel =
     (case canonicalize fs [] exclude of
        Inl err \<Rightarrow> ([], Aborted)
      | Inr aexclude \<Rightarrow> walk fs aexclude fuel [path])"

section \<open>The driver\<close>

text \<open>
  The first loop of \<open>main\<close>, over the files the generator yields:
  \<open>todos += analyze_todos_in_file(file, who)\<close>, and the first \<open>IOError\<close> ends the
  run with its \<open>errno\<close>.
\<close>

fun analyze_all :: "filesys \<Rightarrow> string \<Rightarrow> Todo list \<Rightarrow> string list \<Rightarrow> errno + Todo list" where
  "analyze_all fs who todos [] = Inr todos"
| "analyze_all fs who todos (file # files) =
     (case analyze_todos_in_file fs file who of
        Inl e \<Rightarrow> Inl e
      | Inr found \<Rightarrow> analyze_all fs who (todos @ found) files)"

text \<open>The line \<open>main\<close> writes for one record.\<close>

definition serialize :: "Todo \<Rightarrow> string" where
  "serialize todo =
     ''- ['' @ (if t_done todo then ''x'' else '' '') @ ''] ['' @ t_who todo @ ''] ''
       @ t_what todo @ '' ('' @ t_file todo @ '')\<newline>''"

text \<open>
  The second loop of \<open>main\<close>: \<open>k\<close> counts the calls of \<open>h.write\<close> made so far and
  \<open>out\<close> is the text written so far. It returns the text written and the exit code.
\<close>

fun write_todos :: "filesys \<Rightarrow> bool \<Rightarrow> nat \<Rightarrow> string \<Rightarrow> Todo list \<Rightarrow> string \<times> int" where
  "write_todos fs skip_done k out [] = (out, 0)"
| "write_todos fs skip_done k out (todo # todos) =
     (if skip_done \<and> t_done todo then write_todos fs skip_done k out todos
      else (case write_err fs k of
              Some e \<Rightarrow> (out, e)
            | None \<Rightarrow> write_todos fs skip_done (Suc k) (out @ serialize todo) todos))"

text \<open>
  \<open>main\<close>: the exit code and the text written to the output, or \<open>None\<close> when the
  run is not over within \<open>fuel\<close> iterations of the discovery loop. The generator is
  consumed file by file, so a file that cannot be read ends the run before the rest of
  the tree is walked. A generator that has returned after an error is, for the \<open>for\<close>
  loop, a generator that is exhausted.
\<close>

definition main ::
  "filesys \<Rightarrow> string \<Rightarrow> string \<Rightarrow> string list \<Rightarrow> string \<Rightarrow> bool \<Rightarrow> nat \<Rightarrow> (int \<times> string) option" where
  "main fs path output exclude who skip_done fuel =
     (case get_markdown_files fs path exclude fuel of
        (files, oc) \<Rightarrow>
          (case analyze_all fs who [] files of
             Inl e \<Rightarrow> Some (e, [])
           | Inr todos \<Rightarrow>
               if oc = Unfinished then None
               else (case (if output = ''-'' then None else open_write fs output) of
                       Some e \<Rightarrow> Some (e, [])
                     | None \<Rightarrow> Some (prod.swap (write_todos fs skip_done 0 [] todos)))))"

section \<open>Notions the properties are stated with\<close>

text \<open>The canonical form of \<open>p\<close> is the canonical form of an entry of \<open>exclude\<close>.\<close>

definition is_excluded :: "filesys \<Rightarrow> string list \<Rightarrow> string \<Rightarrow> bool" where
  "is_excluded fs exclude p =
     (case abspath fs p of
        Inl e \<Rightarrow> False
      | Inr a \<Rightarrow> Inr a \<in> abspath fs ` set exclude)"

text \<open>The paths the walk pushes for a directory: \<open>os.path.join(d, entry)\<close>.\<close>

definition children :: "filesys \<Rightarrow> string \<Rightarrow> string list" where
  "children fs d =
     (case listdir fs d of Inl e \<Rightarrow> [] | Inr entries \<Rightarrow> map (path_join d) entries)"

text \<open>\<open>beneath fs d p\<close>: \<open>p\<close> is nested beneath the directory \<open>d\<close>, at any depth.\<close>

inductive beneath :: "filesys \<Rightarrow> string \<Rightarrow> string \<Rightarrow> bool" for fs d where
  child: "c \<in> set (children fs d) \<Longrightarrow> beneath fs d c"
| deeper: "beneath fs d c \<Longrightarrow> c' \<in> set (children fs c) \<Longrightarrow> beneath fs d c'"

text \<open>
  \<open>reached fs exclude start p\<close>: \<open>p\<close> is \<open>start\<close>, or a child of a directory that is
  reached and not excluded.
\<close>

inductive reached :: "filesys \<Rightarrow> string list \<Rightarrow> string \<Rightarrow> string \<Rightarrow> bool"
  for fs exclude start where
  start: "reached fs exclude start start"
| descend: "reached fs exclude start d \<Longrightarrow> \<not> is_excluded fs exclude d \<Longrightarrow> isdir fs d
            \<Longrightarrow> c \<in> set (children fs d) \<Longrightarrow> reached fs exclude start c"

section \<open>Example trees\<close>

text \<open>
  A tree \<open>notes\<close> with \<open>a.md\<close>, \<open>b.txt\<close> and a directory \<open>private\<close> holding \<open>c.md\<close>;
  the working directory is the root.
\<close>

definition notes_tree :: filesys where
  "notes_tree =
     \<lparr>abspath = (\<lambda>p. Inr (''/'' @ p)),
      isfile = (\<lambda>p. p \<in> {''notes/a.md'', ''notes/b.txt'', ''notes/private/c.md''}),
      isdir = (\<lambda>p. p \<in> {''notes'', ''notes/private''}),
      listdir = (\<lambda>p. if p = ''notes'' then Inr [''a.md'', ''b.txt'', ''private'']
                      else if p = ''notes/private'' then Inr [''c.md'']
                      else Inl 20),
      read_text = (\<lambda>p. if p = ''notes/a.md''
                          then Inr ''# Today\<newline>- [x] [Alice] Buy milk\<newline>- [ ] [Bob] Call Mom\<newline>''
                        else if p = ''notes/private/c.md''
                          then Inr ''- [ ] [Alice] Renew passport\<newline>''
                        else if p = ''notes/b.txt'' then Inr ''plain\<newline>''
                        else Inl 2),
      open_write = (\<lambda>p. None),
      write_err = (\<lambda>k. None)\<rparr>"

text \<open>A single file with one line in it.\<close>

definition one_file :: "string \<Rightarrow> string \<Rightarrow> filesys" where
  "one_file name content =
     \<lparr>abspath = (\<lambda>p. Inr (''/'' @ p)),
      isfile = (\<lambda>p. p = name),
      isdir = (\<lambda>p. False),
      listdir = (\<lambda>p. Inl 20),
      read_text = (\<lambda>p. if p = name then Inr content else Inl 2),
      open_write = (\<lambda>p. None),
      write_err = (\<lambda>k. None)\<rparr>"

text \<open>
  A tree \<open>notes\<close> with \<open>a.md\<close> and a directory \<open>locked\<close> that cannot be listed
  (\<open>EACCES\<close>, 13).
\<close>

definition locked_tree :: filesys where
  "locked_tree =
     \<lparr>abspath = (\<lambda>p. Inr (''/'' @ p)),
      isfile = (\<lambda>p. p = ''notes/a.md''),
      isdir = (\<lambda>p. p \<in> {''notes'', ''notes/locked''}),
      listdir = (\<lambda>p. if p = ''notes'' then Inr [''a.md'', ''locked'']
                      else if p = ''notes/locked'' then Inl 13
                      else Inl 20),
      read_text = (\<lambda>p. if p = ''notes/a.md'' then Inr ''- [ ] [Alice] Call Mom\<newline>''
                        else Inl 2),
      open_write = (\<lambda>p. None),
      write_err = (\<lambda>k. None)\<rparr>"

section \<open>Facts about the string operations\<close>

lemma str_find_nonneg_iff: "0 \<le> str_find c s \<longleftrightarrow> c \<in> set s"
  by (induction s) (auto simp: Let_def)

lemma str_find_take: "c \<in> set s \<Longrightarrow> take (nat (str_find c s)) s = takeWhile (\<lambda>x. x \<noteq> c) s"
proof (induction s)
  case Nil
  then show ?case by simp
next
  case (Cons x xs)
  show ?case
  proof (cases "x = c")
    case True
    then show ?thesis by simp
  next
    case False
    with Cons.prems have in_xs: "c \<in> set xs" by simp
    then have nonneg: "0 \<le> str_find c xs" by (simp add: str_find_nonneg_iff)
    then have "nat (str_find c xs + 1) = Suc (nat (str_find c xs))" by simp
    with False in_xs Cons.IH nonneg show ?thesis by (simp add: Let_def)
  qed
qed

lemma str_find_drop:
  "c \<in> set s \<Longrightarrow> drop (Suc (nat (str_find c s))) s = tl (dropWhile (\<lambda>x. x \<noteq> c) s)"
proof (induction s)
  case Nil
  then show ?case by simp
next
  case (Cons x xs)
  show ?case
  proof (cases "x = c")
    case True
    then show ?thesis by simp
  next
    case False
    with Cons.prems have in_xs: "c \<in> set xs" by simp
    then have nonneg: "0 \<le> str_find c xs" by (simp add: str_find_nonneg_iff)
    then have "nat (str_find c xs + 1) = Suc (nat (str_find c xs))" by simp
    with False in_xs Cons.IH nonneg show ?thesis by (simp add: Let_def)
  qed
qed

lemma take_eq_length: "take n l = k \<Longrightarrow> length k = n \<Longrightarrow> n \<le> length l"
proof -
  assume "take n l = k" and "length k = n"
  then have "length (take n l) = n" by simp
  then show ?thesis by simp
qed

lemma takeWhile_before: "c \<notin> set name \<Longrightarrow> takeWhile (\<lambda>x. x \<noteq> c) (name @ c # rest) = name"
  by (induction name) auto

section \<open>The loop body of the extractor, stage by stage\<close>

text \<open>
  The length tests of the source are implied by the comparisons they guard, and the
  name is the text before the first closing bracket of what the checkbox stage left.
\<close>

lemma analyze_line_unfold:
  "analyze_line path who todos line0 =
     (if take 3 line0 = ''- [''
      then (let line1 = drop 3 line0;
                done = (take 4 line1 = ''x] ['');
                line2 = (if take 4 line1 = ''x] ['' \<or> take 4 line1 = '' ] [''
                         then drop 4 line1 else line1)
            in if CHR '']'' \<in> set line2 \<and> takeWhile (\<lambda>x. x \<noteq> CHR '']'') line2 = who
               then todos @ [\<lparr>t_done = done, t_who = who,
                       t_what = strip (tl (dropWhile (\<lambda>x. x \<noteq> CHR '']'') line2)),
                       t_file = path\<rparr>]
               else todos)
      else todos)"
proof -
  have a: "(3 \<le> length line0 \<and> take 3 line0 = ''- ['') = (take 3 line0 = ''- ['')"
    using take_eq_length [of 3 line0 "''- [''"] by auto
  have b: "\<And>l. (4 \<le> length l \<and> take 4 l = ''x] ['') = (take 4 l = ''x] ['')"
    using take_eq_length [of 4 _ "''x] [''"] by auto
  have c: "\<And>l. (4 \<le> length l \<and> take 4 l = '' ] ['') = (take 4 l = '' ] ['')"
    using take_eq_length [of 4 _ "'' ] [''"] by auto
  show ?thesis
    unfolding analyze_line_def a b c
    by (auto simp add: Let_def str_find_nonneg_iff str_find_take str_find_drop
          simp del: drop_drop)
qed

lemma analyze_line_cases:
  "analyze_line path who todos l = todos \<or>
   (\<exists>d w. analyze_line path who todos l
            = todos @ [\<lparr>t_done = d, t_who = who, t_what = w, t_file = path\<rparr>])"
  unfolding analyze_line_unfold by (simp add: Let_def)

lemma analyze_line_bracket_in_who:
  assumes "CHR '']'' \<in> set who"
  shows "analyze_line path who todos l = todos"
proof -
  have "takeWhile (\<lambda>x. x \<noteq> CHR '']'') s \<noteq> who" for s
  proof
    assume "takeWhile (\<lambda>x. x \<noteq> CHR '']'') s = who"
    with assms have "CHR '']'' \<in> set (takeWhile (\<lambda>x. x \<noteq> CHR '']'') s)" by simp
    then show False by (auto dest: set_takeWhileD)
  qed
  then show ?thesis unfolding analyze_line_unfold by (simp add: Let_def)
qed

lemma foldl_analyze_line_who:
  "(\<forall>t \<in> set todos. t_who t = who) \<Longrightarrow>
   \<forall>t \<in> set (foldl (analyze_line path who) todos ls). t_who t = who"
proof (induction ls arbitrary: todos)
  case Nil
  then show ?case by simp
next
  case (Cons l ls)
  have "\<forall>t \<in> set (analyze_line path who todos l). t_who t = who"
    using analyze_line_cases [of path who todos l] Cons.prems by auto
  from Cons.IH [OF this] show ?case by simp
qed

lemma foldl_analyze_line_bracket:
  "CHR '']'' \<in> set who \<Longrightarrow> foldl (analyze_line path who) todos ls = todos"
  by (induction ls arbitrary: todos) (simp_all add: analyze_line_bracket_in_who)

section \<open>Facts about the discovery loop\<close>

lemma canonicalize_set:
  "canonicalize fs acc exclude = Inr aexclude \<Longrightarrow>
   set aexclude = set acc \<union> {a. Inr a \<in> abspath fs ` set exclude}"
proof (induction exclude arbitrary: acc)
  case Nil
  then show ?case by simp
next
  case (Cons e es)
  from Cons.prems obtain a where a: "abspath fs e = Inr a"
    and rest: "canonicalize fs (acc @ [a]) es = Inr aexclude"
    by (auto split: sum.splits)
  from Cons.IH [OF rest] a show ?case by auto
qed

lemma is_excluded_iff:
  assumes "canonicalize fs [] exclude = Inr aexclude"
  shows "is_excluded fs exclude p \<longleftrightarrow> (\<exists>a. abspath fs p = Inr a \<and> a \<in> set aexclude)"
  using canonicalize_set [OF assms] by (auto simp: is_excluded_def split: sum.splits)

text \<open>
  The invariant of the loop: whatever holds of every path on the work list, and passes
  from a directory that is listed to its children, holds of every path yielded; and
  a yielded path is a regular file, ends in \<open>.md\<close> and is not excluded.
\<close>

lemma walk_yields:
  assumes closed: "\<And>d a c. R d \<Longrightarrow> abspath fs d = Inr a \<Longrightarrow> a \<notin> set aexclude \<Longrightarrow> isdir fs d
                     \<Longrightarrow> c \<in> set (children fs d) \<Longrightarrow> R c"
  shows "\<forall>p \<in> set todo. R p \<Longrightarrow> f \<in> set (fst (walk fs aexclude n todo)) \<Longrightarrow>
         R f \<and> isfile fs f \<and> suffix ''.md'' f \<and> (\<exists>a. abspath fs f = Inr a \<and> a \<notin> set aexclude)"
proof (induction n arbitrary: todo)
  case 0
  then show ?case by simp
next
  case (Suc n)
  show ?case
  proof (cases "todo = []")
    case True
    with Suc.prems show ?thesis by simp
  next
    case False
    define p where "p = last todo"
    define todo' where "todo' = butlast todo"
    have Rp: "R p" using False Suc.prems(1) by (simp add: p_def)
    have Rtodo': "\<forall>q \<in> set todo'. R q"
      using Suc.prems(1) by (auto simp: todo'_def dest: in_set_butlastD)
    show ?thesis
    proof (cases "abspath fs p")
      case (Inl e)
      with False Suc.prems(2) show ?thesis by (simp add: p_def [symmetric])
    next
      case (Inr a)
      show ?thesis
      proof (cases "a \<in> set aexclude")
        case True
        with False Inr Suc.prems(2) have "f \<in> set (fst (walk fs aexclude n todo'))"
          by (simp add: p_def [symmetric] todo'_def [symmetric])
        with Suc.IH Rtodo' show ?thesis by blast
      next
        case notex: False
        show ?thesis
        proof (cases "isfile fs p")
          case True
          show ?thesis
          proof (cases "length p \<ge> 3 \<and> drop (length p - 3) p = ''.md''")
            case md: True
            with False Inr notex True Suc.prems(2)
            have "f = p \<or> f \<in> set (fst (walk fs aexclude n todo'))"
              by (auto simp add: p_def [symmetric] todo'_def [symmetric] split: prod.splits)
            then show ?thesis
            proof
              assume "f = p"
              moreover have "suffix ''.md'' p"
                using md suffix_drop [of "length p - 3" p] by simp
              ultimately show ?thesis using Rp True Inr notex by simp
            next
              assume "f \<in> set (fst (walk fs aexclude n todo'))"
              with Suc.IH Rtodo' show ?thesis by blast
            qed
          next
            case False
            with \<open>todo \<noteq> []\<close> Inr notex True Suc.prems(2)
            have "f \<in> set (fst (walk fs aexclude n todo'))"
              by (simp add: p_def [symmetric] todo'_def [symmetric])
            with Suc.IH Rtodo' show ?thesis by blast
          qed
        next
          case nofile: False
          show ?thesis
          proof (cases "isdir fs p")
            case True
            show ?thesis
            proof (cases "listdir fs p")
              case (Inl e)
              with False Inr notex nofile True Suc.prems(2) show ?thesis
                by (simp add: p_def [symmetric])
            next
              case entries: (Inr entries)
              with False Inr notex nofile True Suc.prems(2)
              have in_rest: "f \<in> set (fst (walk fs aexclude n (todo' @ map (path_join p) entries)))"
                by (simp add: p_def [symmetric] todo'_def [symmetric])
              have "\<forall>q \<in> set (map (path_join p) entries). R q"
                using closed [OF Rp Inr notex True] entries by (simp add: children_def)
              with Rtodo' have "\<forall>q \<in> set (todo' @ map (path_join p) entries). R q"
                by auto
              from Suc.IH [OF this in_rest] show ?thesis .
            qed
          next
            case False
            with \<open>todo \<noteq> []\<close> Inr notex nofile Suc.prems(2) show ?thesis
              by (simp add: p_def [symmetric])
          qed
        qed
      qed
    qed
  qed
qed

lemma get_markdown_files_yields:
  assumes "f \<in> set (fst (get_markdown_files fs path exclude fuel))"
  shows "reached fs exclude path f \<and> isfile fs f \<and> suffix ''.md'' f \<and> \<not> is_excluded fs exclude f"
proof -
  from assms obtain aexclude where canon: "canonicalize fs [] exclude = Inr aexclude"
    and f: "f \<in> set (fst (walk fs aexclude fuel [path]))"
    by (auto simp: get_markdown_files_def split: sum.splits)
  have step: "reached fs exclude path c"
    if "reached fs exclude path d" "abspath fs d = Inr a" "a \<notin> set aexclude" "isdir fs d"
      "c \<in> set (children fs d)" for d a c
    using that is_excluded_iff [OF canon, of d] by (auto intro: reached.descend)
  have "\<forall>p \<in> set [path]. reached fs exclude path p"
    by (simp add: reached.start)
  from walk_yields [of "reached fs exclude path" fs aexclude, OF step this f]
  show ?thesis using is_excluded_iff [OF canon, of f] by auto
qed

lemma walk_skips_excluded:
  assumes "abspath fs p = Inr a" and "a \<in> set aexclude"
  shows "walk fs aexclude (Suc n) (todo @ [p]) = walk fs aexclude n todo"
  using assms by simp

section \<open>Facts about lines and line feeds\<close>

lemma readlines_from_inner:
  "NL \<notin> set cur \<Longrightarrow> l \<in> set (readlines_from cur s) \<Longrightarrow> NL \<notin> set (butlast l)"
proof (induction s arbitrary: cur)
  case Nil
  then show ?case by (auto split: if_splits dest: in_set_butlastD)
next
  case (Cons c cs)
  show ?case
  proof (cases "c = NL")
    case True
    with Cons.prems(2) have "l = cur @ [NL] \<or> l \<in> set (readlines_from [] cs)" by auto
    then show ?thesis
    proof
      assume "l = cur @ [NL]"
      with Cons.prems(1) show ?thesis by simp
    next
      assume "l \<in> set (readlines_from [] cs)"
      with Cons.IH [of "[]"] show ?thesis by simp
    qed
  next
    case False
    with Cons.prems(2) have "l \<in> set (readlines_from (cur @ [c]) cs)" by simp
    moreover have "NL \<notin> set (cur @ [c])" using False Cons.prems(1) by simp
    ultimately show ?thesis using Cons.IH by blast
  qed
qed

lemma readlines_from_entry:
  "NL \<notin> set b \<Longrightarrow> readlines_from cur (b @ NL # rest) = (cur @ b @ [NL]) # readlines_from [] rest"
  by (induction b arbitrary: cur) auto

lemma butlast_drop_subset: "set (butlast (drop k l)) \<subseteq> set (butlast l)"
proof -
  have "butlast (drop k l) = drop k (butlast l)" by (simp add: drop_butlast)
  then show ?thesis by (simp add: set_drop_subset)
qed

lemma takeWhile_in_butlast:
  assumes "\<exists>x \<in> set l. \<not> P x"
  shows "set (takeWhile P l) \<subseteq> set (butlast l)"
proof -
  from assms have ne: "dropWhile P l \<noteq> []" by (simp add: dropWhile_eq_Nil_conv)
  have "butlast l = butlast (takeWhile P l @ dropWhile P l)" by simp
  also have "\<dots> = takeWhile P l @ butlast (dropWhile P l)"
    using ne by (simp only: butlast_append if_False)
  finally show ?thesis by simp
qed

lemma strip_no_line_feed:
  assumes "NL \<notin> set (butlast u)"
  shows "NL \<notin> set (strip u)"
proof -
  define v where "v = dropWhile is_space u"
  have "v = drop (length (takeWhile is_space u)) u"
    by (simp add: v_def dropWhile_eq_drop)
  then have inner: "NL \<notin> set (butlast v)"
    using assms butlast_drop_subset [of "length (takeWhile is_space u)" u] by auto
  have "NL \<notin> set (dropWhile is_space (rev v))"
  proof (cases v rule: rev_cases)
    case Nil
    then show ?thesis by simp
  next
    case (snoc w c)
    with inner have w: "NL \<notin> set w" by simp
    show ?thesis
    proof (cases "is_space c")
      case True
      have "set (dropWhile is_space (rev w)) \<subseteq> set (rev w)"
        by (auto dest: set_dropWhileD)
      with snoc True w show ?thesis by auto
    next
      case False
      then have "c \<noteq> NL" by (auto simp: is_space_def)
      with snoc False w show ?thesis by simp
    qed
  qed
  then show ?thesis by (simp add: strip_def v_def)
qed

text \<open>A record made from a line of \<open>readlines\<close> has no line feed in its name or task.\<close>

lemma analyze_line_no_line_feed:
  assumes line: "NL \<notin> set (butlast l)"
    and before: "\<forall>t \<in> set todos. NL \<notin> set (t_who t) \<and> NL \<notin> set (t_what t) \<and> t_file t = path"
  shows "\<forall>t \<in> set (analyze_line path who todos l).
           NL \<notin> set (t_who t) \<and> NL \<notin> set (t_what t) \<and> t_file t = path"
proof -
  have stage: "NL \<notin> set who \<and> NL \<notin> set (strip (tl (dropWhile (\<lambda>x. x \<noteq> CHR '']'') (drop k l))))"
    if "CHR '']'' \<in> set (drop k l)" and "takeWhile (\<lambda>x. x \<noteq> CHR '']'') (drop k l) = who" for k
  proof
    have "set who \<subseteq> set (butlast (drop k l))"
      using that takeWhile_in_butlast [of "drop k l" "\<lambda>x. x \<noteq> CHR '']''"] by auto
    with line butlast_drop_subset [of k l] show "NL \<notin> set who" by auto
  next
    define m where "m = length (takeWhile (\<lambda>x. x \<noteq> CHR '']'') (drop k l))"
    have "tl (dropWhile (\<lambda>x. x \<noteq> CHR '']'') (drop k l)) = drop (Suc m + k) l"
      by (simp add: m_def dropWhile_eq_drop tl_drop drop_Suc)
    moreover have "NL \<notin> set (butlast (drop (Suc m + k) l))"
      using line butlast_drop_subset [of "Suc m + k" l] by auto
    ultimately show "NL \<notin> set (strip (tl (dropWhile (\<lambda>x. x \<noteq> CHR '']'') (drop k l))))"
      using strip_no_line_feed by simp
  qed
  show ?thesis
    unfolding analyze_line_unfold
    using before stage [of 3] stage [of "4 + 3"]
    by (auto simp add: Let_def)
qed

lemma foldl_analyze_line_no_line_feed:
  "\<forall>l \<in> set ls. NL \<notin> set (butlast l) \<Longrightarrow>
   \<forall>t \<in> set todos. NL \<notin> set (t_who t) \<and> NL \<notin> set (t_what t) \<and> t_file t = path \<Longrightarrow>
   \<forall>t \<in> set (foldl (analyze_line path who) todos ls).
     NL \<notin> set (t_who t) \<and> NL \<notin> set (t_what t) \<and> t_file t = path"
proof (induction ls arbitrary: todos)
  case Nil
  then show ?case by simp
next
  case (Cons l ls)
  from Cons.prems(1) have l: "NL \<notin> set (butlast l)"
    and ls: "\<forall>l \<in> set ls. NL \<notin> set (butlast l)"
    by simp_all
  have "\<forall>t \<in> set (analyze_line path who todos l).
          NL \<notin> set (t_who t) \<and> NL \<notin> set (t_what t) \<and> t_file t = path"
    by (rule analyze_line_no_line_feed [OF l Cons.prems(2)])
  from Cons.IH [OF ls this] show ?case by simp
qed

lemma analyze_todos_in_file_no_line_feed:
  assumes "analyze_todos_in_file fs path who = Inr found"
  shows "\<forall>t \<in> set found. NL \<notin> set (t_who t) \<and> NL \<notin> set (t_what t) \<and> t_file t = path"
proof -
  from assms obtain content
    where found: "found = foldl (analyze_line path who) [] (readlines content)"
    by (auto simp: analyze_todos_in_file_def split: sum.splits)
  have "\<forall>l \<in> set (readlines content). NL \<notin> set (butlast l)"
    using readlines_from_inner [of "[]"] by (auto simp: readlines_def)
  from foldl_analyze_line_no_line_feed [OF this, of "[]" path who] found
  show ?thesis by simp
qed

lemma analyze_all_no_line_feed:
  "analyze_all fs who acc files = Inr todos \<Longrightarrow>
   \<forall>t \<in> set acc. NL \<notin> set (t_who t) \<and> NL \<notin> set (t_what t) \<and> t_file t \<in> S \<Longrightarrow>
   set files \<subseteq> S \<Longrightarrow>
   \<forall>t \<in> set todos. NL \<notin> set (t_who t) \<and> NL \<notin> set (t_what t) \<and> t_file t \<in> S"
proof (induction files arbitrary: acc)
  case Nil
  then show ?case by simp
next
  case (Cons f files)
  from Cons.prems(1) obtain found where found: "analyze_todos_in_file fs f who = Inr found"
    and rest: "analyze_all fs who (acc @ found) files = Inr todos"
    by (auto split: sum.splits)
  have "\<forall>t \<in> set found. NL \<notin> set (t_who t) \<and> NL \<notin> set (t_what t) \<and> t_file t \<in> S"
    using analyze_todos_in_file_no_line_feed [OF found] Cons.prems(3) by auto
  with Cons.prems(2)
  have "\<forall>t \<in> set (acc @ found). NL \<notin> set (t_who t) \<and> NL \<notin> set (t_what t) \<and> t_file t \<in> S"
    by auto
  from Cons.IH [OF rest this] Cons.prems(3) show ?case by simp
qed

section \<open>Facts about the report\<close>

lemma serialize_open: "\<not> t_done t \<Longrightarrow> prefix ''- [ ] ['' (serialize t)"
  by (simp add: serialize_def)

lemma readlines_report:
  assumes "\<forall>t \<in> set kept. NL \<notin> set (t_who t) \<and> NL \<notin> set (t_what t) \<and> NL \<notin> set (t_file t)"
  shows "readlines_from [] (concat (map serialize kept)) = map serialize kept"
  using assms
proof (induction kept)
  case Nil
  then show ?case by simp
next
  case (Cons t ts)
  define b where "b = ''- ['' @ (if t_done t then ''x'' else '' '') @ ''] ['' @ t_who t @ ''] ''
       @ t_what t @ '' ('' @ t_file t @ '')''"
  have ser: "serialize t = b @ [NL]" by (simp add: serialize_def b_def)
  have "NL \<notin> set b" using Cons.prems by (simp add: b_def)
  then have "readlines_from [] (b @ NL # concat (map serialize ts))
               = ([] @ b @ [NL]) # readlines_from [] (concat (map serialize ts))"
    by (rule readlines_from_entry)
  with ser Cons show ?case by simp
qed

text \<open>
  What the writing loop has written: the entries of a prefix of the records it does
  not skip, and of all of them when no write fails.
\<close>

lemma write_todos_written:
  "write_todos fs skip_done k out todos = (out', rc) \<Longrightarrow>
   \<exists>kept. out' = out @ concat (map serialize kept)
      \<and> prefix kept (filter (\<lambda>t. \<not> (skip_done \<and> t_done t)) todos)
      \<and> ((\<forall>j. write_err fs j = None) \<longrightarrow>
            kept = filter (\<lambda>t. \<not> (skip_done \<and> t_done t)) todos \<and> rc = 0)"
proof (induction todos arbitrary: k out)
  case Nil
  then show ?case by simp
next
  case (Cons t ts)
  show ?case
  proof (cases "skip_done \<and> t_done t")
    case True
    with Cons.prems have "write_todos fs skip_done k out ts = (out', rc)" by simp
    from Cons.IH [OF this] True show ?thesis by auto
  next
    case keep: False
    show ?thesis
    proof (cases "write_err fs k")
      case (Some e)
      with keep Cons.prems have "out' = out" by auto
      with Some show ?thesis by (intro exI [of _ "[]"]) auto
    next
      case None
      with keep Cons.prems
      have "write_todos fs skip_done (Suc k) (out @ serialize t) ts = (out', rc)" by auto
      from Cons.IH [OF this] obtain kept
        where "out' = (out @ serialize t) @ concat (map serialize kept)"
          and "prefix kept (filter (\<lambda>t. \<not> (skip_done \<and> t_done t)) ts)"
          and "(\<forall>j. write_err fs j = None) \<longrightarrow>
                 kept = filter (\<lambda>t. \<not> (skip_done \<and> t_done t)) ts \<and> rc = 0"
        by blast
      with keep show ?thesis by (intro exI [of _ "t # kept"]) auto
    qed
  qed
qed

section \<open>Facts about the driver\<close>

text \<open>
  What \<open>main\<close> returns when the generator has stopped, for whatever reason, and every
  file it yielded could be read: the outcome of the generator plays no part.
\<close>

lemma main_after_discovery:
  assumes "get_markdown_files fs path exclude fuel = (files, oc)" and "oc \<noteq> Unfinished"
    and "analyze_all fs who [] files = Inr todos"
  shows "main fs path ''-'' exclude who skip_done fuel
           = Some (prod.swap (write_todos fs skip_done 0 [] todos))"
  using assms by (simp add: main_def)

lemma main_exit_zero_after_abort:
  assumes "get_markdown_files fs path exclude fuel = (files, Aborted)"
    and "analyze_all fs who [] files = Inr todos"
    and "\<forall>k. write_err fs k = None"
  shows "\<exists>out. main fs path ''-'' exclude who skip_done fuel = Some (0, out)"
proof -
  obtain out rc where w: "write_todos fs skip_done 0 [] todos = (out, rc)"
    by (cases "write_todos fs skip_done 0 [] todos")
  from write_todos_written [OF w] assms(3) have "rc = 0" by blast
  with w main_after_discovery [OF assms(1) _ assms(2), of skip_done] show ?thesis by simp
qed

text \<open>
  With the skip-done flag set, the text \<open>main\<close> has written is made of the entries of
  a prefix of the records that are not done.
\<close>

lemma main_skip_done_written:
  assumes run: "main fs path output exclude who True fuel = Some (rc, out)"
  shows "\<exists>kept. out = concat (map serialize kept)
          \<and> (kept \<noteq> [] \<longrightarrow>
               (\<exists>todos. analyze_all fs who [] (fst (get_markdown_files fs path exclude fuel)) = Inr todos
                   \<and> set kept \<subseteq> set (filter (\<lambda>t. \<not> t_done t) todos)))
          \<and> (\<forall>todos. analyze_all fs who [] (fst (get_markdown_files fs path exclude fuel)) = Inr todos
                \<longrightarrow> prefix kept (filter (\<lambda>t. \<not> t_done t) todos)
                  \<and> ((output = ''-'' \<or> open_write fs output = None) \<and> (\<forall>k. write_err fs k = None)
                       \<longrightarrow> kept = filter (\<lambda>t. \<not> t_done t) todos \<and> rc = 0))"
proof -
  obtain files oc where disc: "get_markdown_files fs path exclude fuel = (files, oc)"
    by (cases "get_markdown_files fs path exclude fuel")
  show ?thesis
  proof (cases "analyze_all fs who [] files")
    case (Inl e)
    with run disc have "out = []" by (simp add: main_def)
    then have a: "out = concat (map serialize [])" by simp
    have b: "\<forall>todos. analyze_all fs who [] (fst (get_markdown_files fs path exclude fuel)) = Inr todos
                \<longrightarrow> prefix [] (filter (\<lambda>t. \<not> t_done t) todos)
                  \<and> ((output = ''-'' \<or> open_write fs output = None) \<and> (\<forall>k. write_err fs k = None)
                       \<longrightarrow> [] = filter (\<lambda>t. \<not> t_done t) todos \<and> rc = 0)"
      by (simp add: disc Inl)
    from a b show ?thesis by (intro exI [of _ "[]"] conjI) simp_all
  next
    case (Inr todos)
    show ?thesis
    proof (cases "output = ''-'' \<or> open_write fs output = None")
      case False
      with run disc Inr have "out = []" by (auto simp: main_def split: if_splits)
      then have a: "out = concat (map serialize [])" by simp
      have b: "\<forall>todos. analyze_all fs who [] (fst (get_markdown_files fs path exclude fuel)) = Inr todos
                \<longrightarrow> prefix [] (filter (\<lambda>t. \<not> t_done t) todos)
                  \<and> ((output = ''-'' \<or> open_write fs output = None) \<and> (\<forall>k. write_err fs k = None)
                       \<longrightarrow> [] = filter (\<lambda>t. \<not> t_done t) todos \<and> rc = 0)"
        using False by auto
      from a b show ?thesis by (intro exI [of _ "[]"] conjI) simp_all
    next
      case True
      with run disc Inr have "write_todos fs True 0 [] todos = (out, rc)"
        by (cases "write_todos fs True 0 [] todos") (auto simp: main_def split: if_splits)
      from write_todos_written [OF this] obtain kept
        where out: "out = concat (map serialize kept)"
          and pre: "prefix kept (filter (\<lambda>t. \<not> t_done t) todos)"
          and all: "(\<forall>j. write_err fs j = None) \<longrightarrow> kept = filter (\<lambda>t. \<not> t_done t) todos \<and> rc = 0"
        by auto
      from pre have sub: "set kept \<subseteq> set (filter (\<lambda>t. \<not> t_done t) todos)"
        by (rule set_mono_prefix)
      have a: "kept \<noteq> [] \<longrightarrow>
               (\<exists>todos. analyze_all fs who [] (fst (get_markdown_files fs path exclude fuel)) = Inr todos
                   \<and> set kept \<subseteq> set (filter (\<lambda>t. \<not> t_done t) todos))"
        using disc Inr sub by auto
      have b: "\<forall>todos. analyze_all fs who [] (fst (get_markdown_files fs path exclude fuel)) = Inr todos
                \<longrightarrow> prefix kept (filter (\<lambda>t. \<not> t_done t) todos)
                  \<and> ((output = ''-'' \<or> open_write fs output = None) \<and> (\<forall>k. write_err fs k = None)
                       \<longrightarrow> kept = filter (\<lambda>t. \<not> t_done t) todos \<and> rc = 0)"
        using disc Inr pre all by simp
      from out a b show ?thesis by (intro exI [of _ kept] conjI)
    qed
  qed
qed

section \<open>More iterations change nothing once a run is over\<close>

text \<open>
  The iteration bound of the model is no part of the result: a walk that has stopped
  within \<open>n\<close> iterations is the same walk with any larger bound, a walk that has not
  stopped has yielded a prefix of what it yields later, and a result of \<open>main\<close> stays
  the result with any larger bound.
\<close>

lemma walk_nil: "walk fs aexclude n [] = ([], Finished)"
  by (cases n) simp_all

lemma walk_more_fuel:
  "snd (walk fs aexclude n todo) \<noteq> Unfinished \<Longrightarrow>
   walk fs aexclude (n + k) todo = walk fs aexclude n todo"
proof (induction n arbitrary: todo)
  case 0
  then have "todo = []" by (simp split: if_splits)
  then show ?case by (simp add: walk_nil)
next
  case (Suc n)
  show ?case
  proof (cases "todo = []")
    case True
    then show ?thesis by simp
  next
    case False
    have step: "walk fs aexclude (n + k) t = walk fs aexclude n t"
      if "snd (walk fs aexclude n t) \<noteq> Unfinished" for t
      using Suc.IH that by blast
    from Suc.prems False show ?thesis
      by (auto simp add: Let_def step split: sum.splits if_splits prod.splits)
  qed
qed

lemma walk_prefix: "prefix (fst (walk fs aexclude n todo)) (fst (walk fs aexclude (n + k) todo))"
proof (induction n arbitrary: todo)
  case 0
  then show ?case by simp
next
  case (Suc n)
  show ?case
  proof (cases "todo = []")
    case True
    then show ?thesis by simp
  next
    case False
    have ih: "prefix a c"
      if "walk fs aexclude n t = (a, b)" and "walk fs aexclude (n + k) t = (c, d)" for t a b c d
      using Suc.IH [of t] that by simp
    from False show ?thesis
      by (auto simp add: Let_def Suc.IH split: sum.splits prod.splits intro: ih)
  qed
qed

lemma analyze_all_append_fails:
  "analyze_all fs who acc files = Inl e \<Longrightarrow> analyze_all fs who acc (files @ later) = Inl e"
  by (induction files arbitrary: acc) (auto split: sum.splits)

lemma main_more_fuel:
  assumes "main fs path output exclude who skip_done fuel = Some r"
  shows "main fs path output exclude who skip_done (fuel + k) = Some r"
proof (cases "canonicalize fs [] exclude")
  case (Inl err)
  with assms show ?thesis by (simp add: main_def get_markdown_files_def)
next
  case (Inr aexclude)
  obtain files oc where w: "walk fs aexclude fuel [path] = (files, oc)"
    by (cases "walk fs aexclude fuel [path]")
  show ?thesis
  proof (cases "oc = Unfinished")
    case False
    with w have "walk fs aexclude (fuel + k) [path] = walk fs aexclude fuel [path]"
      using walk_more_fuel [of fs aexclude fuel "[path]" k] by simp
    with assms Inr show ?thesis by (simp add: main_def get_markdown_files_def)
  next
    case True
    with assms Inr w obtain e where fails: "analyze_all fs who [] files = Inl e" and r: "r = (e, [])"
      by (auto simp: main_def get_markdown_files_def split: sum.splits)
    obtain files' oc' where w': "walk fs aexclude (fuel + k) [path] = (files', oc')"
      by (cases "walk fs aexclude (fuel + k) [path]")
    with w walk_prefix [of fs aexclude fuel "[path]" k] obtain later where "files' = files @ later"
      by (auto simp: prefix_def)
    with fails have "analyze_all fs who [] files' = Inl e"
      by (simp add: analyze_all_append_fails)
    with Inr w' r show ?thesis by (simp add: main_def get_markdown_files_def)
  qed
qed

section \<open>Claims about the extractor\<close>

text \<open>
  C1, as stated: a line that begins with \<open>- [\<close> and does not go on with \<open>x] [\<close> or
  \<^verbatim>\<open> ] [\<close> produces no record, whatever the target. It fails: the line
  \<open>- [Alice] Buy milk\<close> goes on with \<open>Alic\<close>, and for the target \<open>Alice\<close> the
  loop body stores a record that is not done.
\<close>

theorem C1_unmarked_line_counterexample:
  "take 3 ''- [Alice] Buy milk\<newline>'' = ''- [''
   \<and> take 4 (drop 3 ''- [Alice] Buy milk\<newline>'') \<noteq> ''x] [''
   \<and> take 4 (drop 3 ''- [Alice] Buy milk\<newline>'') \<noteq> '' ] [''
   \<and> analyze_line ''notes.md'' ''Alice'' [] ''- [Alice] Buy milk\<newline>''
       = [\<lparr>t_done = False, t_who = ''Alice'', t_what = ''Buy milk'', t_file = ''notes.md''\<rparr>]"
  by (simp add: analyze_line_def strip_def is_space_def)

text \<open>
  C1, amended: on a line that begins with \<open>- [\<close> and does not go on with \<open>x] [\<close> or
  \<^verbatim>\<open> ] [\<close>, no checkbox marker is consumed and the name is the text between \<open>- [\<close>
  and the first \<open>]\<close>. The line produces no record when there is no \<open>]\<close> or when
  that name differs from the target; otherwise it produces one record that is not done,
  whose task is the stripped text after that \<open>]\<close>.
\<close>

theorem C1_unmarked_line:
  assumes "take 4 r \<noteq> ''x] [''" and "take 4 r \<noteq> '' ] [''"
  shows "analyze_line path who todos (''- ['' @ r) =
           (if CHR '']'' \<in> set r \<and> takeWhile (\<lambda>c. c \<noteq> CHR '']'') r = who
            then todos @ [\<lparr>t_done = False, t_who = who,
                           t_what = strip (tl (dropWhile (\<lambda>c. c \<noteq> CHR '']'') r)),
                           t_file = path\<rparr>]
            else todos)"
  using assms unfolding analyze_line_unfold by (simp add: Let_def)

theorem C1_unmarked_line_witness:
  "take 4 ''Bob] Call Mom\<newline>'' \<noteq> ''x] ['' \<and> take 4 ''Bob] Call Mom\<newline>'' \<noteq> '' ] [''
   \<and> analyze_line ''n.md'' ''Bob'' [] ''- [Bob] Call Mom\<newline>''
       = [\<lparr>t_done = False, t_who = ''Bob'', t_what = ''Call Mom'', t_file = ''n.md''\<rparr>]
   \<and> analyze_line ''n.md'' ''Alice'' [] ''- [Bob] Call Mom\<newline>'' = []
   \<and> analyze_line ''n.md'' ''Bob'' [] ''- [Bob Call Mom\<newline>'' = []"
proof -
  have h1: "take 4 ''Bob] Call Mom\<newline>'' \<noteq> ''x] [''" by simp
  have h2: "take 4 ''Bob] Call Mom\<newline>'' \<noteq> '' ] [''" by simp
  have h3: "take 4 ''Bob Call Mom\<newline>'' \<noteq> ''x] [''" by simp
  have h4: "take 4 ''Bob Call Mom\<newline>'' \<noteq> '' ] [''" by simp
  show ?thesis
    using C1_unmarked_line [OF h1 h2, of "''n.md''" "''Bob''" "[]"]
      C1_unmarked_line [OF h1 h2, of "''n.md''" "''Alice''" "[]"]
      C1_unmarked_line [OF h3 h4, of "''n.md''" "''Bob''" "[]"]
    by (simp add: strip_def is_space_def)
qed

text \<open>
  C5: a file that is the one line \<open>- [x] [Alice] Buy milk\<close> gives, for the target
  \<open>Alice\<close>, exactly one record, done, for \<open>Alice\<close>, with the task \<open>Buy milk\<close> and the
  path of the file; for any other target it gives the empty list.
\<close>

theorem C5_buy_milk:
  assumes "read_text fs path = Inr ''- [x] [Alice] Buy milk\<newline>''"
  shows "analyze_todos_in_file fs path ''Alice''
           = Inr [\<lparr>t_done = True, t_who = ''Alice'', t_what = ''Buy milk'', t_file = path\<rparr>]
         \<and> (who \<noteq> ''Alice'' \<longrightarrow> analyze_todos_in_file fs path who = Inr [])"
proof -
  have lines: "readlines ''- [x] [Alice] Buy milk\<newline>'' = [''- [x] [Alice] Buy milk\<newline>'']"
    by (simp add: readlines_def)
  have hit: "analyze_line path ''Alice'' [] ''- [x] [Alice] Buy milk\<newline>''
               = [\<lparr>t_done = True, t_who = ''Alice'', t_what = ''Buy milk'', t_file = path\<rparr>]"
    by (simp add: analyze_line_unfold strip_def is_space_def)
  have miss: "who \<noteq> ''Alice'' \<Longrightarrow> analyze_line path who [] ''- [x] [Alice] Buy milk\<newline>'' = []"
    by (auto simp add: analyze_line_unfold)
  show ?thesis
    using assms lines hit miss by (simp add: analyze_todos_in_file_def)
qed

theorem C5_buy_milk_witness:
  "read_text (one_file ''list.md'' ''- [x] [Alice] Buy milk\<newline>'') ''list.md''
     = Inr ''- [x] [Alice] Buy milk\<newline>''
   \<and> analyze_todos_in_file (one_file ''list.md'' ''- [x] [Alice] Buy milk\<newline>'') ''list.md'' ''Alice''
     = Inr [\<lparr>t_done = True, t_who = ''Alice'', t_what = ''Buy milk'', t_file = ''list.md''\<rparr>]
   \<and> ''Bob'' \<noteq> ''Alice''
   \<and> analyze_todos_in_file (one_file ''list.md'' ''- [x] [Alice] Buy milk\<newline>'') ''list.md'' ''Bob''
     = Inr []"
proof -
  have h: "read_text (one_file ''list.md'' ''- [x] [Alice] Buy milk\<newline>'') ''list.md''
             = Inr ''- [x] [Alice] Buy milk\<newline>''"
    by (simp add: one_file_def)
  show ?thesis
    using h C5_buy_milk [OF h, of "''Bob''"] by simp
qed

text \<open>
  C6: when the checkbox marker (\<open>x] [\<close> or \<^verbatim>\<open> ] [\<close>) has been consumed and the rest
  of the line has no \<open>]\<close>, the loop body leaves the list of records as it was.
\<close>

theorem C6_no_closing_bracket:
  assumes "m = ''x] ['' \<or> m = '' ] [''" and "CHR '']'' \<notin> set rest"
  shows "analyze_line path who todos (''- ['' @ m @ rest) = todos"
  using assms unfolding analyze_line_unfold by (auto simp add: Let_def)

theorem C6_no_closing_bracket_witness:
  "('' ] ['' = ''x] ['' \<or> '' ] ['' = '' ] ['') \<and> CHR '']'' \<notin> set ''Alice unterminated\<newline>''
   \<and> analyze_line ''n.md'' ''Alice'' [] ''- [ ] [Alice unterminated\<newline>'' = []"
proof -
  have h1: "'' ] ['' = ''x] ['' \<or> '' ] ['' = '' ] [''" by simp
  have h2: "CHR '']'' \<notin> set ''Alice unterminated\<newline>''" by simp
  show ?thesis
    using h1 h2 C6_no_closing_bracket [OF h1 h2, of "''n.md''" "''Alice''" "[]"] by simp
qed

text \<open>
  C8: every record the extractor returns carries the target as its \<open>who\<close>, character
  for character; a line whose name, as it stands between the brackets, is not the
  target leaves the list of records as it was.
\<close>

theorem C8_who_is_target:
  "(analyze_todos_in_file fs path who = Inr todos \<longrightarrow> (\<forall>t \<in> set todos. t_who t = who))
   \<and> ((m = ''x] ['' \<or> m = '' ] ['') \<and> CHR '']'' \<notin> set name \<and> name \<noteq> who
        \<longrightarrow> analyze_line path who found (''- ['' @ m @ name @ '']'' @ rest) = found)"
proof
  show "analyze_todos_in_file fs path who = Inr todos \<longrightarrow> (\<forall>t \<in> set todos. t_who t = who)"
  proof
    assume run: "analyze_todos_in_file fs path who = Inr todos"
    then obtain content where "read_text fs path = Inr content"
      and "todos = foldl (analyze_line path who) [] (readlines content)"
      by (auto simp: analyze_todos_in_file_def split: sum.splits)
    then show "\<forall>t \<in> set todos. t_who t = who"
      using foldl_analyze_line_who [of "[]" who path "readlines content"] by simp
  qed
next
  show "(m = ''x] ['' \<or> m = '' ] ['') \<and> CHR '']'' \<notin> set name \<and> name \<noteq> who
          \<longrightarrow> analyze_line path who found (''- ['' @ m @ name @ '']'' @ rest) = found"
  proof
    assume h: "(m = ''x] ['' \<or> m = '' ] ['') \<and> CHR '']'' \<notin> set name \<and> name \<noteq> who"
    then have name: "takeWhile (\<lambda>x. x \<noteq> CHR '']'') (name @ CHR '']'' # rest) = name"
      by (simp add: takeWhile_before)
    from h consider "m = ''x] [''" | "m = '' ] [''" by blast
    then show "analyze_line path who found (''- ['' @ m @ name @ '']'' @ rest) = found"
    proof cases
      case 1
      with h name show ?thesis unfolding analyze_line_unfold by (simp add: Let_def)
    next
      case 2
      with h name show ?thesis unfolding analyze_line_unfold by (simp add: Let_def)
    qed
  qed
qed

theorem C8_who_is_target_witness:
  "analyze_todos_in_file notes_tree ''notes/a.md'' ''Alice''
     = Inr [\<lparr>t_done = True, t_who = ''Alice'', t_what = ''Buy milk'', t_file = ''notes/a.md''\<rparr>]
   \<and> t_who \<lparr>t_done = True, t_who = ''Alice'', t_what = ''Buy milk'',
              t_file = ''notes/a.md''\<rparr> = ''Alice''
   \<and> CHR '']'' \<notin> set ''alice '' \<and> ''alice '' \<noteq> ''Alice''
   \<and> analyze_line ''notes/a.md'' ''Alice'' [] ''- [ ] [alice ] Call Mom\<newline>'' = []"
proof -
  have run: "analyze_todos_in_file notes_tree ''notes/a.md'' ''Alice''
     = Inr [\<lparr>t_done = True, t_who = ''Alice'', t_what = ''Buy milk'', t_file = ''notes/a.md''\<rparr>]"
    by (simp add: analyze_todos_in_file_def notes_tree_def readlines_def analyze_line_unfold
          strip_def is_space_def)
  show ?thesis
    using run
      C8_who_is_target [of notes_tree "''notes/a.md''" "''Alice''"
        "[\<lparr>t_done = True, t_who = ''Alice'', t_what = ''Buy milk'', t_file = ''notes/a.md''\<rparr>]"
        "'' ] [''" "''alice ''" "[]" "'' Call Mom\<newline>''"]
    by simp
qed

text \<open>
  C9, as stated: a line shorter than three characters, or with fewer than four
  characters after \<open>- [\<close>, is skipped. The second half fails: \<open>- [A]\<close> has two
  characters after the prefix, and for the target \<open>A\<close> the loop body stores a record.
\<close>

theorem C9_short_line_counterexample:
  "take 3 ''- [A]'' = ''- ['' \<and> length (drop 3 ''- [A]'') < 4
   \<and> analyze_line ''notes.md'' ''A'' [] ''- [A]''
       = [\<lparr>t_done = False, t_who = ''A'', t_what = [], t_file = ''notes.md''\<rparr>]"
  by (simp add: analyze_line_def strip_def)

text \<open>
  C9, amended: the loop body is defined on every line. A line shorter than three
  characters is skipped. A line with fewer than four characters after \<open>- [\<close> does
  not match a checkbox marker: nothing more is consumed, the record would not be done,
  and the line goes on to the name stage, where it is skipped unless it has a \<open>]\<close>
  with the target before it.
\<close>

theorem C9_short_line:
  "(length l < 3 \<longrightarrow> analyze_line path who todos l = todos)
   \<and> (length r < 4 \<longrightarrow>
        analyze_line path who todos (''- ['' @ r) =
          (if CHR '']'' \<in> set r \<and> takeWhile (\<lambda>c. c \<noteq> CHR '']'') r = who
           then todos @ [\<lparr>t_done = False, t_who = who,
                          t_what = strip (tl (dropWhile (\<lambda>c. c \<noteq> CHR '']'') r)),
                          t_file = path\<rparr>]
           else todos))"
proof
  show "length l < 3 \<longrightarrow> analyze_line path who todos l = todos"
    by (simp add: analyze_line_def)
next
  show "length r < 4 \<longrightarrow>
        analyze_line path who todos (''- ['' @ r) =
          (if CHR '']'' \<in> set r \<and> takeWhile (\<lambda>c. c \<noteq> CHR '']'') r = who
           then todos @ [\<lparr>t_done = False, t_who = who,
                          t_what = strip (tl (dropWhile (\<lambda>c. c \<noteq> CHR '']'') r)),
                          t_file = path\<rparr>]
           else todos)"
  proof
    assume short: "length r < 4"
    have "take 4 r \<noteq> ''x] [''" and "take 4 r \<noteq> '' ] [''"
      using short take_eq_length [of 4 r] by auto
    then show "analyze_line path who todos (''- ['' @ r) =
          (if CHR '']'' \<in> set r \<and> takeWhile (\<lambda>c. c \<noteq> CHR '']'') r = who
           then todos @ [\<lparr>t_done = False, t_who = who,
                          t_what = strip (tl (dropWhile (\<lambda>c. c \<noteq> CHR '']'') r)),
                          t_file = path\<rparr>]
           else todos)"
      unfolding analyze_line_unfold by (simp add: Let_def)
  qed
qed

theorem C9_short_line_witness:
  "length ''- '' < 3 \<and> analyze_line ''n.md'' ''Al'' [] ''- '' = []
   \<and> length ''Al]'' < 4
   \<and> analyze_line ''n.md'' ''Al'' [] ''- [Al]''
       = [\<lparr>t_done = False, t_who = ''Al'', t_what = [], t_file = ''n.md''\<rparr>]
   \<and> length ''x] '' < 4 \<and> analyze_line ''n.md'' ''Al'' [] ''- [x] '' = []"
  using C9_short_line [of "''- ''" "''n.md''" "''Al''" "[]" "''Al]''"]
    C9_short_line [of "''- ''" "''n.md''" "''Al''" "[]" "''x] ''"]
  by (simp add: strip_def)

text \<open>
  C10: when the target contains \<open>]\<close>, the extractor returns the empty list for every
  file content, since the name it compares with the target ends before the first \<open>]\<close>.
\<close>

theorem C10_bracket_in_target:
  assumes "read_text fs path = Inr content" and "CHR '']'' \<in> set who"
  shows "analyze_todos_in_file fs path who = Inr []"
  using assms by (simp add: analyze_todos_in_file_def foldl_analyze_line_bracket)

theorem C10_bracket_in_target_witness:
  "read_text (one_file ''n.md'' ''- [ ] [A]B] task\<newline>'') ''n.md'' = Inr ''- [ ] [A]B] task\<newline>''
   \<and> CHR '']'' \<in> set ''A]B''
   \<and> analyze_todos_in_file (one_file ''n.md'' ''- [ ] [A]B] task\<newline>'') ''n.md'' ''A]B'' = Inr []"
proof -
  have h1: "read_text (one_file ''n.md'' ''- [ ] [A]B] task\<newline>'') ''n.md''
              = Inr ''- [ ] [A]B] task\<newline>''"
    by (simp add: one_file_def)
  have h2: "CHR '']'' \<in> set ''A]B''" by simp
  show ?thesis using h1 h2 C10_bracket_in_target [OF h1 h2] by simp
qed

section \<open>Claims about the file discoverer\<close>

text \<open>
  C3, as stated: whatever the starting path and the exclusion list, no yielded path has
  its canonical form in the exclusion set, and no yielded path is nested beneath an
  excluded directory. The second half fails when the walk starts beneath the excluded
  directory: with \<open>notes\<close> excluded and the walk started at \<open>notes/private\<close>,
  the file \<open>notes/private/c.md\<close> is yielded. The test of the source compares the
  canonical form of the path at hand with the exclusion set, and nothing else.
\<close>

theorem C3_start_beneath_excluded_counterexample:
  "''notes/private/c.md'' \<in> set (fst (get_markdown_files notes_tree ''notes/private'' [''notes''] 2))
   \<and> is_excluded notes_tree [''notes''] ''notes''
   \<and> beneath notes_tree ''notes'' ''notes/private/c.md''"
proof -
  have "beneath notes_tree ''notes'' ''notes/private''"
    by (rule beneath.child) (simp add: children_def notes_tree_def path_join_def)
  then have "beneath notes_tree ''notes'' ''notes/private/c.md''"
    by (rule beneath.deeper) (simp add: children_def notes_tree_def path_join_def)
  moreover have "is_excluded notes_tree [''notes''] ''notes''"
    by (simp add: is_excluded_def notes_tree_def)
  moreover have "get_markdown_files notes_tree ''notes/private'' [''notes''] 2
                   = ([''notes/private/c.md''], Finished)"
    by (simp add: get_markdown_files_def notes_tree_def path_join_def numeral_2_eq_2)
  ultimately show ?thesis by simp
qed

text \<open>
  C3, amended: no yielded path has its canonical form in the exclusion set, and every
  yielded path is reached from the starting path through directories none of which has
  its canonical form in the exclusion set; an excluded path on top of the work list is
  dropped without being yielded or listed, so an excluded directory is not descended
  into. (A path beneath an excluded directory is yielded all the same when the walk
  starts beneath that directory.)
\<close>

theorem C3_excluded_not_walked:
  "(f \<in> set (fst (get_markdown_files fs path exclude fuel))
      \<longrightarrow> \<not> is_excluded fs exclude f \<and> reached fs exclude path f)
   \<and> (canonicalize fs [] exclude = Inr aexclude \<and> is_excluded fs exclude p
      \<longrightarrow> walk fs aexclude (Suc n) (todo @ [p]) = walk fs aexclude n todo)"
proof
  show "f \<in> set (fst (get_markdown_files fs path exclude fuel))
          \<longrightarrow> \<not> is_excluded fs exclude f \<and> reached fs exclude path f"
    using get_markdown_files_yields [of f fs path exclude fuel] by blast
next
  show "canonicalize fs [] exclude = Inr aexclude \<and> is_excluded fs exclude p
          \<longrightarrow> walk fs aexclude (Suc n) (todo @ [p]) = walk fs aexclude n todo"
  proof
    assume h: "canonicalize fs [] exclude = Inr aexclude \<and> is_excluded fs exclude p"
    then obtain a where "abspath fs p = Inr a" and "a \<in> set aexclude"
      using is_excluded_iff [of fs exclude aexclude p] by blast
    then show "walk fs aexclude (Suc n) (todo @ [p]) = walk fs aexclude n todo"
      by (rule walk_skips_excluded)
  qed
qed

theorem C3_excluded_not_walked_witness:
  "''notes/a.md'' \<in> set (fst (get_markdown_files notes_tree ''notes'' [''notes/private''] 4))
   \<and> \<not> is_excluded notes_tree [''notes/private''] ''notes/a.md''
   \<and> reached notes_tree [''notes/private''] ''notes'' ''notes/a.md''
   \<and> canonicalize notes_tree [] [''notes/private''] = Inr [''/notes/private'']
   \<and> is_excluded notes_tree [''notes/private''] ''notes/private''
   \<and> walk notes_tree [''/notes/private''] (Suc 3) ([''notes/a.md'', ''notes/b.txt''] @ [''notes/private''])
       = walk notes_tree [''/notes/private''] 3 [''notes/a.md'', ''notes/b.txt'']"
proof -
  have h1: "''notes/a.md'' \<in> set (fst (get_markdown_files notes_tree ''notes'' [''notes/private''] 4))"
    by (simp add: get_markdown_files_def notes_tree_def path_join_def eval_nat_numeral)
  have h2: "canonicalize notes_tree [] [''notes/private''] = Inr [''/notes/private'']"
    by (simp add: notes_tree_def)
  have h3: "is_excluded notes_tree [''notes/private''] ''notes/private''"
    by (simp add: is_excluded_def notes_tree_def)
  show ?thesis
    using h1 h2 h3
      C3_excluded_not_walked [of "''notes/a.md''" notes_tree "''notes''" "[''notes/private'']" 4
        "[''/notes/private'']" "''notes/private''" 3 "[''notes/a.md'', ''notes/b.txt'']"]
    by simp
qed

text \<open>
  C4: every path the discoverer yields is a regular file and ends in \<open>.md\<close>; so a
  file whose name does not end in \<open>.md\<close> is never yielded. This holds of the paths
  yielded within any number of iterations, hence of every path ever yielded.
\<close>

theorem C4_only_markdown_files:
  assumes "f \<in> set (fst (get_markdown_files fs path exclude fuel))"
  shows "isfile fs f \<and> suffix ''.md'' f"
  using get_markdown_files_yields [OF assms] by simp

theorem C4_only_markdown_files_witness:
  "get_markdown_files notes_tree ''notes'' [] 5 = ([''notes/private/c.md'', ''notes/a.md''], Finished)
   \<and> ''notes/private/c.md'' \<in> set (fst (get_markdown_files notes_tree ''notes'' [] 5))
   \<and> isfile notes_tree ''notes/private/c.md'' \<and> suffix ''.md'' ''notes/private/c.md''
   \<and> ''notes/b.txt'' \<notin> set (fst (get_markdown_files notes_tree ''notes'' [] 5))"
proof -
  have run: "get_markdown_files notes_tree ''notes'' [] 5
               = ([''notes/private/c.md'', ''notes/a.md''], Finished)"
    by (simp add: get_markdown_files_def notes_tree_def path_join_def eval_nat_numeral)
  then have h: "''notes/private/c.md'' \<in> set (fst (get_markdown_files notes_tree ''notes'' [] 5))"
    by simp
  show ?thesis
    using run h C4_only_markdown_files [OF h] by simp
qed

section \<open>Claims about the driver\<close>

text \<open>
  C2: a fatal error of the discovery is to end the run with a non-zero exit status.
  The code does not: the error branches of the generator print their message and
  return, the \<open>for\<close> loop of \<open>main\<close> ends as on an exhausted generator, and \<open>main\<close>
  goes on to write what it has and returns 0. Here the starting path \<open>missing\<close> is
  neither a file nor a directory, and the directory \<open>notes/locked\<close> cannot be listed;
  both runs return 0, the second with an empty report although \<open>notes/a.md\<close> holds a
  task for \<open>Alice\<close>.
\<close>

theorem C2_discovery_error_exit_zero:
  "get_markdown_files notes_tree ''missing'' [] 1 = ([], Aborted)
   \<and> main notes_tree ''missing'' ''-'' [] ''Alice'' False 1 = Some (0, [])
   \<and> get_markdown_files locked_tree ''notes'' [] 2 = ([], Aborted)
   \<and> main locked_tree ''notes'' ''-'' [] ''Alice'' False 2 = Some (0, [])"
proof -
  have a: "get_markdown_files notes_tree ''missing'' [] 1 = ([], Aborted)"
    by (simp add: get_markdown_files_def notes_tree_def)
  have b: "get_markdown_files locked_tree ''notes'' [] 2 = ([], Aborted)"
    by (simp add: get_markdown_files_def locked_tree_def path_join_def numeral_2_eq_2)
  show ?thesis using a b by (simp add: main_def)
qed

text \<open>
  C7, as stated: with the skip-done flag set, no line of the report begins with
  \<open>- [x]\<close>. It fails on a path with a line feed in it, which is written as it is:
  for the file \<open>a<LF>- [x].md\<close> with an open task, the second line of the report is
  \<open>- [x].md)\<close>.
\<close>

theorem C7_line_feed_in_path_counterexample:
  "main (one_file ''a\<newline>- [x].md'' ''- [ ] [A] t\<newline>'') ''a\<newline>- [x].md'' ''-'' [] ''A'' True 1
     = Some (0, ''- [ ] [A] t (a\<newline>- [x].md)\<newline>'')
   \<and> readlines ''- [ ] [A] t (a\<newline>- [x].md)\<newline>''
       = [''- [ ] [A] t (a\<newline>'', ''- [x].md)\<newline>'']
   \<and> prefix ''- [x]'' ''- [x].md)\<newline>''"
proof -
  have files: "get_markdown_files (one_file ''a\<newline>- [x].md'' ''- [ ] [A] t\<newline>'') ''a\<newline>- [x].md'' [] 1
                 = ([''a\<newline>- [x].md''], Finished)"
    by (simp add: get_markdown_files_def one_file_def)
  have todos: "analyze_todos_in_file (one_file ''a\<newline>- [x].md'' ''- [ ] [A] t\<newline>'') ''a\<newline>- [x].md'' ''A''
                 = Inr [\<lparr>t_done = False, t_who = ''A'', t_what = ''t'', t_file = ''a\<newline>- [x].md''\<rparr>]"
    by (simp add: analyze_todos_in_file_def one_file_def readlines_def analyze_line_unfold
          strip_def is_space_def)
  have run: "main (one_file ''a\<newline>- [x].md'' ''- [ ] [A] t\<newline>'') ''a\<newline>- [x].md'' ''-'' [] ''A'' True 1
     = Some (0, ''- [ ] [A] t (a\<newline>- [x].md)\<newline>'')"
    using files todos by (simp add: main_def serialize_def one_file_def)
  have lines: "readlines ''- [ ] [A] t (a\<newline>- [x].md)\<newline>''
       = [''- [ ] [A] t (a\<newline>'', ''- [x].md)\<newline>'']"
    by (simp add: readlines_def)
  show ?thesis using run lines by simp
qed

text \<open>
  C7, amended: with the skip-done flag set, the report is the entries, one after the
  other, of records that are not done: a prefix of the records found that are not done,
  and all of them, in order, when the output opens and no write fails. So every record
  that is done is dropped and no other. Every entry begins with \<open>- [ ]\<close>; and when no
  discovered path has a line feed in it, no line of the report begins with \<open>- [x]\<close>.
\<close>

theorem C7_skip_done:
  assumes run: "main fs path output exclude who True fuel = Some (rc, out)"
  shows "\<exists>kept. out = concat (map serialize kept)
           \<and> (\<forall>t \<in> set kept. \<not> t_done t \<and> prefix ''- [ ] ['' (serialize t))
           \<and> (\<forall>todos. analyze_all fs who [] (fst (get_markdown_files fs path exclude fuel)) = Inr todos
                \<longrightarrow> prefix kept (filter (\<lambda>t. \<not> t_done t) todos)
                  \<and> ((output = ''-'' \<or> open_write fs output = None) \<and> (\<forall>k. write_err fs k = None)
                       \<longrightarrow> kept = filter (\<lambda>t. \<not> t_done t) todos \<and> rc = 0))
           \<and> ((\<forall>f \<in> set (fst (get_markdown_files fs path exclude fuel)). NL \<notin> set f)
                \<longrightarrow> (\<forall>l \<in> set (readlines out). \<not> prefix ''- [x]'' l))"
proof -
  define files where "files = fst (get_markdown_files fs path exclude fuel)"
  from main_skip_done_written [OF run] obtain kept
    where out: "out = concat (map serialize kept)"
      and sub: "kept \<noteq> [] \<longrightarrow> (\<exists>todos. analyze_all fs who [] files = Inr todos
                                   \<and> set kept \<subseteq> set (filter (\<lambda>t. \<not> t_done t) todos))"
      and spec: "\<forall>todos. analyze_all fs who [] files = Inr todos
                \<longrightarrow> prefix kept (filter (\<lambda>t. \<not> t_done t) todos)
                  \<and> ((output = ''-'' \<or> open_write fs output = None) \<and> (\<forall>k. write_err fs k = None)
                       \<longrightarrow> kept = filter (\<lambda>t. \<not> t_done t) todos \<and> rc = 0)"
    unfolding files_def by blast
  have entries: "\<forall>t \<in> set kept. \<not> t_done t \<and> prefix ''- [ ] ['' (serialize t)"
  proof
    fix t assume t: "t \<in> set kept"
    then have "kept \<noteq> []" by auto
    with sub t have "\<not> t_done t" by auto
    then show "\<not> t_done t \<and> prefix ''- [ ] ['' (serialize t)"
      using serialize_open by simp
  qed
  have lines: "(\<forall>f \<in> set files. NL \<notin> set f) \<longrightarrow> (\<forall>l \<in> set (readlines out). \<not> prefix ''- [x]'' l)"
  proof (intro impI ballI)
    fix l
    assume clean: "\<forall>f \<in> set files. NL \<notin> set f" and l: "l \<in> set (readlines out)"
    have "\<forall>t \<in> set kept. NL \<notin> set (t_who t) \<and> NL \<notin> set (t_what t) \<and> NL \<notin> set (t_file t)"
    proof
      fix t assume t: "t \<in> set kept"
      then have "kept \<noteq> []" by auto
      with sub obtain todos where all: "analyze_all fs who [] files = Inr todos"
        and "set kept \<subseteq> set (filter (\<lambda>t. \<not> t_done t) todos)"
        by blast
      with t have "t \<in> set todos" by auto
      moreover have "\<forall>t \<in> set todos. NL \<notin> set (t_who t) \<and> NL \<notin> set (t_what t) \<and> t_file t \<in> set files"
        by (rule analyze_all_no_line_feed [OF all]) simp_all
      ultimately have "NL \<notin> set (t_who t) \<and> NL \<notin> set (t_what t) \<and> t_file t \<in> set files"
        by blast
      with clean show "NL \<notin> set (t_who t) \<and> NL \<notin> set (t_what t) \<and> NL \<notin> set (t_file t)"
        by blast
    qed
    then have "readlines_from [] (concat (map serialize kept)) = map serialize kept"
      by (rule readlines_report)
    with out have "readlines out = map serialize kept"
      by (simp add: readlines_def)
    with l obtain t where "t \<in> set kept" and "l = serialize t" by auto
    with entries have "prefix ''- [ ] ['' l" by simp
    then obtain z where "l = ''- [ ] ['' @ z" by (auto simp: prefix_def)
    then show "\<not> prefix ''- [x]'' l" by (simp add: prefix_def)
  qed
  from out entries spec lines show ?thesis
    unfolding files_def by (intro exI [of _ kept] conjI)
qed

theorem C7_skip_done_witness:
  "main notes_tree ''notes'' ''-'' [] ''Alice'' True 5
     = Some (0, ''- [ ] [Alice] Renew passport (notes/private/c.md)\<newline>'')
   \<and> main notes_tree ''notes'' ''-'' [] ''Alice'' False 5
     = Some (0, ''- [ ] [Alice] Renew passport (notes/private/c.md)\<newline>- [x] [Alice] Buy milk (notes/a.md)\<newline>'')
   \<and> (\<exists>kept. ''- [ ] [Alice] Renew passport (notes/private/c.md)\<newline>'' = concat (map serialize kept)
         \<and> kept = filter (\<lambda>t. \<not> t_done t)
                    [\<lparr>t_done = False, t_who = ''Alice'', t_what = ''Renew passport'',
                       t_file = ''notes/private/c.md''\<rparr>,
                     \<lparr>t_done = True, t_who = ''Alice'', t_what = ''Buy milk'',
                       t_file = ''notes/a.md''\<rparr>])
   \<and> readlines ''- [ ] [Alice] Renew passport (notes/private/c.md)\<newline>''
       = [''- [ ] [Alice] Renew passport (notes/private/c.md)\<newline>'']
   \<and> \<not> prefix ''- [x]'' ''- [ ] [Alice] Renew passport (notes/private/c.md)\<newline>''"
proof -
  have files: "get_markdown_files notes_tree ''notes'' [] 5
                 = ([''notes/private/c.md'', ''notes/a.md''], Finished)"
    by (simp add: get_markdown_files_def notes_tree_def path_join_def eval_nat_numeral)
  have c: "analyze_todos_in_file notes_tree ''notes/private/c.md'' ''Alice''
             = Inr [\<lparr>t_done = False, t_who = ''Alice'', t_what = ''Renew passport'',
                      t_file = ''notes/private/c.md''\<rparr>]"
    by (simp add: analyze_todos_in_file_def notes_tree_def readlines_def analyze_line_unfold
          strip_def is_space_def)
  have a: "analyze_todos_in_file notes_tree ''notes/a.md'' ''Alice''
             = Inr [\<lparr>t_done = True, t_who = ''Alice'', t_what = ''Buy milk'',
                      t_file = ''notes/a.md''\<rparr>]"
    by (simp add: analyze_todos_in_file_def notes_tree_def readlines_def analyze_line_unfold
          strip_def is_space_def)
  have todos: "analyze_all notes_tree ''Alice'' [] [''notes/private/c.md'', ''notes/a.md'']
                 = Inr [\<lparr>t_done = False, t_who = ''Alice'', t_what = ''Renew passport'',
                          t_file = ''notes/private/c.md''\<rparr>,
                        \<lparr>t_done = True, t_who = ''Alice'', t_what = ''Buy milk'',
                          t_file = ''notes/a.md''\<rparr>]"
    using a c by simp
  have w: "write_err notes_tree = (\<lambda>k. None)" by (simp add: notes_tree_def)
  have run: "main notes_tree ''notes'' ''-'' [] ''Alice'' True 5
               = Some (0, ''- [ ] [Alice] Renew passport (notes/private/c.md)\<newline>'')"
    using files todos w by (simp add: main_def serialize_def)
  have run_all: "main notes_tree ''notes'' ''-'' [] ''Alice'' False 5
     = Some (0, ''- [ ] [Alice] Renew passport (notes/private/c.md)\<newline>- [x] [Alice] Buy milk (notes/a.md)\<newline>'')"
    using files todos w by (simp add: main_def serialize_def)
  have lines: "readlines ''- [ ] [Alice] Renew passport (notes/private/c.md)\<newline>''
       = [''- [ ] [Alice] Renew passport (notes/private/c.md)\<newline>'']"
    by (simp add: readlines_def)
  from C7_skip_done [OF run] obtain kept
    where k1: "''- [ ] [Alice] Renew passport (notes/private/c.md)\<newline>'' = concat (map serialize kept)"
      and k3: "\<forall>todos. analyze_all notes_tree ''Alice'' []
                          (fst (get_markdown_files notes_tree ''notes'' [] 5)) = Inr todos
                \<longrightarrow> prefix kept (filter (\<lambda>t. \<not> t_done t) todos)
                  \<and> ((''-'' = ''-'' \<or> open_write notes_tree ''-'' = None)
                        \<and> (\<forall>k. write_err notes_tree k = None)
                       \<longrightarrow> kept = filter (\<lambda>t. \<not> t_done t) todos \<and> (0::int) = 0)"
      and k4: "(\<forall>f \<in> set (fst (get_markdown_files notes_tree ''notes'' [] 5)). NL \<notin> set f)
                \<longrightarrow> (\<forall>l \<in> set (readlines ''- [ ] [Alice] Renew passport (notes/private/c.md)\<newline>'').
                       \<not> prefix ''- [x]'' l)"
    by (elim exE conjE)
  from k3 files todos w
  have keq: "kept = filter (\<lambda>t. \<not> t_done t)
                    [\<lparr>t_done = False, t_who = ''Alice'', t_what = ''Renew passport'',
                       t_file = ''notes/private/c.md''\<rparr>,
                     \<lparr>t_done = True, t_who = ''Alice'', t_what = ''Buy milk'',
                       t_file = ''notes/a.md''\<rparr>]"
    by simp
  from k4 files
  have "\<forall>l \<in> set (readlines ''- [ ] [Alice] Renew passport (notes/private/c.md)\<newline>'').
               \<not> prefix ''- [x]'' l"
    by simp
  with lines have nol: "\<not> prefix ''- [x]'' ''- [ ] [Alice] Renew passport (notes/private/c.md)\<newline>''"
    by simp
  from k1 keq have ex: "\<exists>kept. ''- [ ] [Alice] Renew passport (notes/private/c.md)\<newline>'' = concat (map serialize kept)
         \<and> kept = filter (\<lambda>t. \<not> t_done t)
                    [\<lparr>t_done = False, t_who = ''Alice'', t_what = ''Renew passport'',
                       t_file = ''notes/private/c.md''\<rparr>,
                     \<lparr>t_done = True, t_who = ''Alice'', t_what = ''Buy milk'',
                       t_file = ''notes/a.md''\<rparr>]"
    by (intro exI [of _ kept] conjI)
  from run run_all ex lines nol show ?thesis by (intro conjI)
qed

end
